theory Spec2Isabelle
  imports Main "HOL-Library.Word" "HOL-Library.Sublist"
begin

section \<open>JavaScript strings\<close>

text \<open>
  A JavaScript string is a sequence of 16-bit UTF-16 code units; \<open>length\<close>, the regular
  expressions without the \<open>u\<close> flag, \<open>split\<close> and \<open>trim\<close> all work on code units.
  ASCII literals of the source are written \<open>js ''...''\<close>.
\<close>

type_synonym code_unit = "16 word"
type_synonym jsstring = "code_unit list"

definition js :: "string \<Rightarrow> jsstring" where
  "js s = map of_char s"

definition SP :: code_unit where
  "SP = 0x20"

definition NL :: code_unit where
  "NL = 0x0A"

text \<open>The character class \<open>\s\<close> of ECMAScript, which is also what \<open>trim\<close> strips:
  WhiteSpace (TAB, VT, FF, SP, NBSP, ZWNBSP and the category Zs) and LineTerminator
  (LF, CR, LS, PS).\<close>

definition is_whitespace :: "code_unit \<Rightarrow> bool" where
  "is_whitespace c =
     (let n = unat c in
        (9 \<le> n \<and> n \<le> 13) \<or> n = 0x20 \<or> n = 0xA0 \<or> n = 0x1680 \<or>
        (0x2000 \<le> n \<and> n \<le> 0x200A) \<or> n = 0x2028 \<or> n = 0x2029 \<or>
        n = 0x202F \<or> n = 0x205F \<or> n = 0x3000 \<or> n = 0xFEFF)"

definition is_newline :: "code_unit \<Rightarrow> bool" where
  "is_newline c = (c = NL)"

definition is_ascii_letter :: "code_unit \<Rightarrow> bool" where
  "is_ascii_letter c =
     (let n = unat c in (0x61 \<le> n \<and> n \<le> 0x7A) \<or> (0x41 \<le> n \<and> n \<le> 0x5A))"

definition is_ascii_digit :: "code_unit \<Rightarrow> bool" where
  "is_ascii_digit c = (let n = unat c in 0x30 \<le> n \<and> n \<le> 0x39)"

text \<open>The punctuation marks \<open>. , ! ?\<close> of the class.\<close>

definition is_punctuation :: "code_unit \<Rightarrow> bool" where
  "is_punctuation c = (c = 0x2E \<or> c = 0x2C \<or> c = 0x21 \<or> c = 0x3F)"

text \<open>The class \<open>[a-zA-Z0-9.,!? \n]\<close>, whose complement the first pass replaces.\<close>

definition in_allow_class :: "code_unit \<Rightarrow> bool" where
  "in_allow_class c =
     (is_ascii_letter c \<or> is_ascii_digit c \<or> is_punctuation c \<or> c = SP \<or> c = NL)"

section \<open>String operations of the pipeline\<close>

text \<open>\<open>s.replace(/[^...]/g, " ")\<close> for a negated character class: every code unit
  outside the class becomes one space.\<close>

definition replace_outside :: "(code_unit \<Rightarrow> bool) \<Rightarrow> jsstring \<Rightarrow> jsstring" where
  "replace_outside cls s = map (\<lambda>c. if cls c then c else SP) s"

text \<open>\<open>s.replace(/C+/g, r)\<close> for a character class \<open>C\<close>: scanning from the left, every
  maximal run of code units of the class is replaced by \<open>r\<close>.\<close>

function replace_runs :: "(code_unit \<Rightarrow> bool) \<Rightarrow> jsstring \<Rightarrow> jsstring \<Rightarrow> jsstring" where
  "replace_runs cls r [] = []"
| "replace_runs cls r (c # cs) =
     (if cls c then r @ replace_runs cls r (dropWhile cls cs)
      else c # replace_runs cls r cs)"
  by pat_completeness auto
termination
  by (relation "measure (\<lambda>(cls, r, s). length s)")
     (auto simp: length_dropWhile_le less_Suc_eq_le)

text \<open>\<open>s.trim()\<close>: leading and trailing white space and line terminators go.\<close>

definition trim :: "jsstring \<Rightarrow> jsstring" where
  "trim s = rev (dropWhile is_whitespace (rev (dropWhile is_whitespace s)))"

text \<open>The Text Normalizer: the chain of three \<open>replace\<close> calls and \<open>trim\<close> that computes
  \<open>cleanedText\<close>.\<close>

definition normalize :: "jsstring \<Rightarrow> jsstring" where
  "normalize text =
     trim (replace_runs is_newline [SP]
            (replace_runs is_whitespace [SP]
              (replace_outside in_allow_class text)))"

text \<open>The text after the first two passes of the Normalizer.\<close>

definition collapsed :: "jsstring \<Rightarrow> jsstring" where
  "collapsed s = replace_runs is_whitespace [SP] (replace_outside in_allow_class s)"

text \<open>\<open>s.split(/\. |\? |! /)\<close>. The separator matches a terminator followed by a space.
  \<open>split_from piece rest\<close> scans \<open>rest\<close> with the current piece collected so far; a match
  closes the piece and scanning resumes behind the two matched code units. The empty
  string is the special case of \<open>split\<close>: the separator cannot match it, so the result
  is the one-element array holding the empty string.\<close>

definition is_terminator :: "code_unit \<Rightarrow> bool" where
  "is_terminator c = (c = 0x2E \<or> c = 0x3F \<or> c = 0x21)"

fun split_from :: "jsstring \<Rightarrow> jsstring \<Rightarrow> jsstring list" where
  "split_from piece (c # d # cs) =
     (if is_terminator c \<and> d = SP then piece # split_from [] cs
      else split_from (piece @ [c]) (d # cs))"
| "split_from piece cs = [piece @ cs]"

definition segmenter :: "jsstring \<Rightarrow> jsstring list" where
  "segmenter s = (if s = [] then [s] else split_from [] s)"

text \<open>\<open>.filter(s => s.length > 30)\<close>.\<close>

definition candidate_filter :: "jsstring list \<Rightarrow> jsstring list" where
  "candidate_filter segs = filter (\<lambda>s. length s > 30) segs"

text \<open>The decimal string of a non-negative integer, as the template literal prints
  \<open>idx + 1\<close>.\<close>

fun number_to_string :: "nat \<Rightarrow> jsstring" where
  "number_to_string n =
     (if n < 10 then [of_nat (48 + n)]
      else number_to_string (n div 10) @ [of_nat (48 + n mod 10)])"

declare number_to_string.simps [simp del]

text \<open>The template literal of the Prompt Synthesizer; U+2192 is the arrow and U+0022
  the double quote.\<close>

definition prompt :: "jsstring \<Rightarrow> nat \<Rightarrow> jsstring" where
  "prompt sentence idx =
     js ''Q'' @ number_to_string (idx + 1) @ js '': What does this mean? '' @ [0x2192] @
     js '' '' @ [0x22] @ trim sentence @ js ''?'' @ [0x22]"

text \<open>\<open>xs.map((x, idx) => f(x, idx))\<close>, the index counted from \<open>k\<close>.\<close>

fun map_with_index :: "('a \<Rightarrow> nat \<Rightarrow> 'b) \<Rightarrow> nat \<Rightarrow> 'a list \<Rightarrow> 'b list" where
  "map_with_index f k [] = []"
| "map_with_index f k (x # xs) = f x k # map_with_index f (Suc k) xs"

text \<open>\<open>sentences.slice(0, 5).map(...)\<close>.\<close>

definition synthesizer :: "jsstring list \<Rightarrow> jsstring list" where
  "synthesizer sentences = map_with_index prompt 0 (take 5 sentences)"

text \<open>Segmenter, Filter and Synthesizer on a normalized text, and the whole function
  of the component.\<close>

definition prompts_of_normalized :: "jsstring \<Rightarrow> jsstring list" where
  "prompts_of_normalized cleanedText = synthesizer (candidate_filter (segmenter cleanedText))"

definition cleanAndGenerateQuestions :: "jsstring \<Rightarrow> jsstring list" where
  "cleanAndGenerateQuestions text = prompts_of_normalized (normalize text)"

section \<open>Predicates of the specification\<close>

text \<open>No two neighbouring elements both satisfy \<open>P\<close>.\<close>

fun no_adjacent :: "('a \<Rightarrow> bool) \<Rightarrow> 'a list \<Rightarrow> bool" where
  "no_adjacent P (x # y # xs) = (\<not> (P x \<and> P y) \<and> no_adjacent P (y # xs))"
| "no_adjacent P xs = True"

text \<open>The three separators of the Segmenter as strings.\<close>

definition delimiters :: "jsstring list" where
  "delimiters = [js ''. '', js ''? '', js ''! '']"

text \<open>No separator starts at any position of the string.\<close>

fun delim_free :: "jsstring \<Rightarrow> bool" where
  "delim_free (c # d # cs) = (\<not> (is_terminator c \<and> d = SP) \<and> delim_free (d # cs))"
| "delim_free cs = True"

text \<open>Pieces put back together with the separators that stood between them.\<close>

fun weave :: "'a list list \<Rightarrow> 'a list list \<Rightarrow> 'a list" where
  "weave (p # ps) (d # ds) = p @ d @ weave ps ds"
| "weave ps ds = concat ps"

section \<open>Page Text Extractor\<close>

text \<open>
  The decoder (pdf.js in the browser, pdf-parse on the server) is a library outside the
  repository: a decoded document is the interface the code uses of it, and the decoding
  function itself is a parameter of the model. Every awaited promise may reject, which
  is the \<open>Inl\<close> of a sum.
\<close>

datatype error = DecodeError

record text_item =
  str :: jsstring

record text_content =
  items :: "text_item list"

record pdf_page =
  getTextContent :: "error + text_content"

record pdf_document =
  numPages :: nat
  getPage :: "nat \<Rightarrow> error + pdf_page"

text \<open>\<open>xs.join(sep)\<close>.\<close>

fun join :: "jsstring \<Rightarrow> jsstring list \<Rightarrow> jsstring" where
  "join sep [] = []"
| "join sep [x] = x"
| "join sep (x # y # ys) = x @ sep @ join sep (y # ys)"

definition page_text :: "text_content \<Rightarrow> jsstring" where
  "page_text content = join (js '' '') (map str (items content))"

text \<open>The loop \<open>for (let i = 1; i <= pdf.numPages; i++)\<close> with the text collected so
  far; a rejected promise leaves the loop with the error.\<close>

function extract_from :: "pdf_document \<Rightarrow> nat \<Rightarrow> jsstring \<Rightarrow> error + jsstring" where
  "extract_from pdf i acc =
     (if i \<le> numPages pdf then
        (case getPage pdf i of
           Inl e \<Rightarrow> Inl e
         | Inr page \<Rightarrow>
             (case getTextContent page of
                Inl e \<Rightarrow> Inl e
              | Inr content \<Rightarrow> extract_from pdf (i + 1) (acc @ page_text content @ [NL])))
      else Inr acc)"
  by pat_completeness auto
termination
  by (relation "measure (\<lambda>(pdf, i, acc). Suc (numPages pdf) - i)") auto

declare extract_from.simps [simp del]

record upload_file =
  ftype :: jsstring
  bytes :: "8 word list"

text \<open>What one run of \<open>handleFileChange\<close> does to its surroundings: it calls \<open>onUpload\<close>
  with the document text, or it raises the alert, or the \<open>onload\<close> callback ends in a
  rejected promise and neither happens.\<close>

datatype outcome = OnUpload jsstring | Alert jsstring | Rejected error

definition handleFileChange ::
    "(8 word list \<Rightarrow> error + pdf_document) \<Rightarrow> upload_file list \<Rightarrow> outcome" where
  "handleFileChange getDocument files =
     (case files of
        [] \<Rightarrow> Alert (js ''Please upload a valid PDF.'')
      | f # _ \<Rightarrow>
          if ftype f = js ''application/pdf'' then
            (case getDocument (bytes f) of
               Inl e \<Rightarrow> Rejected e
             | Inr pdf \<Rightarrow>
                 (case extract_from pdf 1 [] of
                    Inl e \<Rightarrow> Rejected e
                  | Inr doc \<Rightarrow> OnUpload doc))
          else Alert (js ''Please upload a valid PDF.''))"





section \<open>Transport shell\<close>









section \<open>Facts about the character classes\<close>

lemma is_whitespace_SP: "is_whitespace SP"
  by (simp add: is_whitespace_def SP_def)

lemma is_whitespace_NL: "is_whitespace NL"
  by (simp add: is_whitespace_def NL_def)

lemma in_allow_class_SP: "in_allow_class SP"
  by (simp add: in_allow_class_def)

lemma SP_not_NL: "SP \<noteq> NL"
  by (simp add: SP_def NL_def)

lemma is_punctuation_unat:
  "is_punctuation c \<Longrightarrow> unat c = 0x2E \<or> unat c = 0x2C \<or> unat c = 0x21 \<or> unat c = 0x3F"
  by (auto simp: is_punctuation_def)

lemma allowed_not_whitespace:
  assumes "in_allow_class c" and "\<not> is_whitespace c"
  shows "is_ascii_letter c \<or> is_ascii_digit c \<or> is_punctuation c"
  using assms is_whitespace_SP is_whitespace_NL by (auto simp: in_allow_class_def)

lemma visible_not_whitespace:
  assumes "is_ascii_letter c \<or> is_ascii_digit c \<or> is_punctuation c"
  shows "\<not> is_whitespace c"
proof -
  from assms have "(0x21 \<le> unat c \<and> unat c \<le> 0x7A)"
    using is_punctuation_unat [of c]
    by (auto simp: is_ascii_letter_def is_ascii_digit_def Let_def)
  then show ?thesis by (auto simp: is_whitespace_def Let_def)
qed


section \<open>Run replacement and trimming\<close>

lemma replace_runs_id: "\<forall>c\<in>set s. \<not> cls c \<Longrightarrow> replace_runs cls r s = s"
  by (induction s) auto

lemma replace_runs_set:
  "set (replace_runs cls r s) \<subseteq> set r \<union> {c \<in> set s. \<not> cls c}"
proof (induction cls r s rule: replace_runs.induct)
  case (1 cls r)
  show ?case by simp
next
  case (2 cls r c cs)
  show ?case
  proof (cases "cls c")
    case True
    have "set (dropWhile cls cs) \<subseteq> set cs" by (auto dest: set_dropWhileD)
    with 2(1)[OF True] True show ?thesis by auto
  next
    case False
    with 2(2)[OF False] show ?thesis by auto
  qed
qed

lemma no_adjacent_Cons_not: "\<not> P x \<Longrightarrow> no_adjacent P (x # xs) = no_adjacent P xs"
  by (cases xs) auto

lemma no_adjacent_Cons_hd:
  "xs = [] \<or> \<not> P (hd xs) \<Longrightarrow> no_adjacent P (x # xs) = no_adjacent P xs"
  by (cases xs) auto

lemma replace_runs_hd:
  "s = [] \<or> \<not> cls (hd s) \<Longrightarrow>
   replace_runs cls r s = [] \<or> \<not> cls (hd (replace_runs cls r s))"
  by (cases s) auto

lemma dropWhile_hd: "dropWhile P xs = [] \<or> \<not> P (hd (dropWhile P xs))"
  using hd_dropWhile by blast

lemma replace_runs_no_adjacent: "no_adjacent cls (replace_runs cls [sp] s)"
proof (induction cls "[sp]" s rule: replace_runs.induct)
  case (1 cls)
  show ?case by simp
next
  case (2 cls c cs)
  show ?case
  proof (cases "cls c")
    case True
    have "replace_runs cls [sp] (dropWhile cls cs) = [] \<or>
          \<not> cls (hd (replace_runs cls [sp] (dropWhile cls cs)))"
      by (rule replace_runs_hd) (rule dropWhile_hd)
    with 2(1)[OF True] True show ?thesis
      by (simp add: no_adjacent_Cons_hd)
  next
    case False
    with 2(2)[OF False] show ?thesis by (simp add: no_adjacent_Cons_not)
  qed
qed

lemma no_adjacent_append:
  "no_adjacent P (xs @ ys) \<Longrightarrow> no_adjacent P xs \<and> no_adjacent P ys"
proof (induction xs rule: induct_list012)
  case 1
  then show ?case by simp
next
  case (2 x)
  then show ?case by (cases ys) auto
next
  case (3 x y zs)
  then show ?case by auto
qed

lemma no_adjacent_sublist:
  "no_adjacent P s \<Longrightarrow> P x \<Longrightarrow> P y \<Longrightarrow> \<not> sublist [x, y] s"
proof
  assume a: "no_adjacent P s" "P x" "P y" and "sublist [x, y] s"
  then obtain ps ss where "s = ps @ [x, y] @ ss" by (auto simp: sublist_def)
  with a(1) have "no_adjacent P ([x, y] @ ss)" using no_adjacent_append by blast
  with a(2,3) show False by simp
qed

lemma replace_runs_fix:
  "\<forall>c\<in>set s. cls c \<longrightarrow> c = sp \<Longrightarrow> no_adjacent cls s \<Longrightarrow> replace_runs cls [sp] s = s"
proof (induction s)
  case Nil
  show ?case by simp
next
  case (Cons c cs)
  from Cons.prems(2) have na: "no_adjacent cls cs" by (cases cs) auto
  from Cons.prems(1) have "\<forall>c\<in>set cs. cls c \<longrightarrow> c = sp" by simp
  then have ih: "replace_runs cls [sp] cs = cs" using na by (rule Cons.IH)
  show ?case
  proof (cases "cls c")
    case True
    with Cons.prems(1) have c: "c = sp" by simp
    from Cons.prems(2) True have d: "dropWhile cls cs = cs" by (cases cs) auto
    have "replace_runs cls [sp] (c # cs) = [sp] @ replace_runs cls [sp] (dropWhile cls cs)"
      using True by simp
    also have "\<dots> = c # cs" by (simp only: d ih c append.simps)
    finally show ?thesis .
  next
    case False
    then show ?thesis by (simp add: ih)
  qed
qed

lemma trim_split:
  "\<exists>a b. s = a @ trim s @ b \<and> (\<forall>c\<in>set a. is_whitespace c) \<and> (\<forall>c\<in>set b. is_whitespace c)"
proof -
  let ?t = "dropWhile is_whitespace s"
  let ?a = "takeWhile is_whitespace s"
  let ?b = "rev (takeWhile is_whitespace (rev ?t))"
  have 1: "s = ?a @ ?t" by simp
  have "rev (takeWhile is_whitespace (rev ?t) @ dropWhile is_whitespace (rev ?t)) = trim s @ ?b"
    unfolding trim_def by (rule rev_append)
  then have 2: "?t = trim s @ ?b" by simp
  have 3: "?a @ ?t = ?a @ trim s @ ?b" using 2 by (rule arg_cong)
  have "s = ?a @ trim s @ ?b" using 1 3 by (rule trans)
  moreover have "\<forall>c\<in>set ?a. is_whitespace c"
    by (auto dest: set_takeWhileD)
  moreover have "\<forall>c\<in>set ?b. is_whitespace c"
    by (auto dest: set_takeWhileD)
  ultimately show ?thesis by blast
qed

lemma last_dropWhile: "dropWhile P xs \<noteq> [] \<Longrightarrow> last (dropWhile P xs) = last xs"
  by (induction xs) auto

lemma trim_ends:
  assumes "trim s \<noteq> []"
  shows "\<not> is_whitespace (hd (trim s)) \<and> \<not> is_whitespace (last (trim s))"
proof -
  let ?t = "dropWhile is_whitespace s"
  let ?u = "dropWhile is_whitespace (rev ?t)"
  from assms have u: "?u \<noteq> []" unfolding trim_def by (simp only: rev_is_Nil_conv simp_thms)
  have t: "?t \<noteq> []"
  proof
    assume "?t = []"
    then have "?u = []" by (simp only: rev.simps dropWhile.simps)
    with u show False by simp
  qed
  have "last (trim s) = hd ?u" using u by (simp add: trim_def last_rev)
  moreover have "\<not> is_whitespace (hd ?u)" using u hd_dropWhile by blast
  moreover have "hd (trim s) = last ?u" using u by (simp add: trim_def hd_rev)
  moreover have "last ?u = last (rev ?t)" using u by (rule last_dropWhile)
  moreover have "last (rev ?t) = hd ?t" using t by (simp add: last_rev)
  moreover have "\<not> is_whitespace (hd ?t)" using t hd_dropWhile by blast
  ultimately show ?thesis by simp
qed

lemma trim_id:
  assumes "s = [] \<or> (\<not> is_whitespace (hd s) \<and> \<not> is_whitespace (last s))"
  shows "trim s = s"
proof (cases s)
  case Nil
  then show ?thesis by (simp add: trim_def)
next
  case (Cons c cs)
  with assms have h: "\<not> is_whitespace (hd s)" and l: "\<not> is_whitespace (last s)" by auto
  from h Cons have 1: "dropWhile is_whitespace s = s" by simp
  from Cons have "butlast s @ [last s] = s" by simp
  then have "rev s = rev (butlast s @ [last s])" by (simp only:)
  then have r: "rev s = last s # rev (butlast s)" by (simp only: rev_append rev.simps append.simps)
  have "dropWhile is_whitespace (rev s) = rev s"
    by (simp only: r dropWhile.simps l if_False)
  with 1 show ?thesis by (simp only: trim_def rev_rev_ident)
qed

section \<open>The Text Normalizer\<close>

lemma replace_outside_class: "\<forall>c\<in>set (replace_outside in_allow_class s). in_allow_class c"
  by (auto simp: replace_outside_def in_allow_class_SP)

lemma replace_outside_fix: "\<forall>c\<in>set s. cls c \<Longrightarrow> replace_outside cls s = s"
  by (induction s) (auto simp: replace_outside_def)

lemma collapsed_chars:
  assumes "c \<in> set (collapsed s)"
  shows "in_allow_class c \<and> (is_whitespace c \<longrightarrow> c = SP)"
proof -
  from assms replace_runs_set [of is_whitespace "[SP]" "replace_outside in_allow_class s"]
  have "c = SP \<or> (c \<in> set (replace_outside in_allow_class s) \<and> \<not> is_whitespace c)"
    by (auto simp: collapsed_def)
  with replace_outside_class [of s] show ?thesis
    by (auto simp: in_allow_class_SP)
qed

lemma collapsed_no_newline: "\<forall>c\<in>set (collapsed s). \<not> is_newline c"
proof
  fix c
  assume "c \<in> set (collapsed s)"
  then have "is_whitespace c \<longrightarrow> c = SP" using collapsed_chars by blast
  then have "c \<noteq> NL" using is_whitespace_NL SP_not_NL by metis
  then show "\<not> is_newline c" by (simp add: is_newline_def)
qed

lemma normalize_collapsed: "normalize s = trim (collapsed s)"
  using replace_runs_id [OF collapsed_no_newline, of "[SP]" s]
  by (simp add: normalize_def collapsed_def)

lemma normalize_subset: "set (normalize s) \<subseteq> set (collapsed s)"
proof -
  obtain a b where "collapsed s = a @ trim (collapsed s) @ b"
    using trim_split [of "collapsed s"] by blast
  then have "set (collapsed s) = set (a @ trim (collapsed s) @ b)" by simp
  then show ?thesis by (auto simp: normalize_collapsed)
qed

lemma normalize_chars:
  assumes "c \<in> set (normalize s)"
  shows "in_allow_class c \<and> (is_whitespace c \<longrightarrow> c = SP)"
  using assms normalize_subset [of s] collapsed_chars [of c s] by blast

lemma normalize_no_adjacent: "no_adjacent is_whitespace (normalize s)"
proof -
  obtain a b where ab: "collapsed s = a @ trim (collapsed s) @ b"
    using trim_split [of "collapsed s"] by blast
  have "no_adjacent is_whitespace (collapsed s)"
    unfolding collapsed_def by (rule replace_runs_no_adjacent)
  then have "no_adjacent is_whitespace (a @ trim (collapsed s) @ b)"
    using ab by simp
  then have "no_adjacent is_whitespace (trim (collapsed s) @ b)"
    using no_adjacent_append by blast
  then have "no_adjacent is_whitespace (trim (collapsed s))"
    using no_adjacent_append by blast
  then show ?thesis by (simp add: normalize_collapsed)
qed

lemma normalize_ends:
  "normalize s = [] \<or>
   (\<not> is_whitespace (hd (normalize s)) \<and> \<not> is_whitespace (last (normalize s)))"
  using trim_ends [of "collapsed s"] by (auto simp: normalize_collapsed)

lemma normalize_visible:
  assumes "c \<in> set (normalize s)"
  shows "is_ascii_letter c \<or> is_ascii_digit c \<or> is_punctuation c \<or> c = SP"
  using normalize_chars [OF assms] allowed_not_whitespace [of c] by blast

lemma normalize_no_NL: "NL \<notin> set (normalize s)"
  using normalize_chars [of NL s] is_whitespace_NL SP_not_NL by metis

lemma normalize_single_spaced: "\<not> sublist [SP, SP] (normalize s)"
  using normalize_no_adjacent is_whitespace_SP is_whitespace_SP by (rule no_adjacent_sublist)

lemma normalize_Nil: "normalize [] = []"
  by (simp add: normalize_def replace_outside_def trim_def)

lemmas eval_chars = js_def SP_def NL_def replace_outside_def in_allow_class_def
  is_ascii_letter_def is_ascii_digit_def is_punctuation_def is_whitespace_def is_newline_def
  is_terminator_def

text \<open>
  C4. The Normalizer is a total function that maps the empty string to the empty string,
  and the normalized text of every input holds no newline, no two consecutive spaces, and
  apart from the space only ASCII letters, ASCII digits and the marks \<open>. , ! ?\<close>.
\<close>

theorem normalize_invariant:
  "normalize [] = [] \<and>
   NL \<notin> set (normalize s) \<and>
   \<not> sublist [SP, SP] (normalize s) \<and>
   (\<forall>c\<in>set (normalize s). is_ascii_letter c \<or> is_ascii_digit c \<or> is_punctuation c \<or> c = SP)"
  using normalize_Nil normalize_no_NL normalize_single_spaced normalize_visible by blast

theorem normalize_invariant_witness:
  "normalize (js ''  Hi,  you#'' @ [NL, NL] @ js ''2!'') = js ''Hi, you 2!'' \<and>
   NL \<notin> set (js ''Hi, you 2!'') \<and>
   \<not> sublist [SP, SP] (js ''Hi, you 2!'') \<and>
   (is_ascii_letter 0x48 \<or> is_ascii_digit 0x48 \<or> is_punctuation 0x48 \<or> 0x48 = SP)"
proof -
  have e: "normalize (js ''  Hi,  you#'' @ [NL, NL] @ js ''2!'') = js ''Hi, you 2!''"
    by (simp add: normalize_def trim_def eval_chars)
  have m: "0x48 \<in> set (js ''Hi, you 2!'')"
    by (simp add: js_def)
  show ?thesis
    using normalize_invariant [of "js ''  Hi,  you#'' @ [NL, NL] @ js ''2!''"] m
    unfolding e by blast
qed

text \<open>
  C5. The Normalizer is idempotent: normalizing a normalized text returns it unchanged.
\<close>

theorem normalize_idempotent: "normalize (normalize s) = normalize s"
proof -
  let ?n = "normalize s"
  have 1: "replace_outside in_allow_class ?n = ?n"
    using normalize_chars [of _ s] by (intro replace_outside_fix) blast
  have 2: "replace_runs is_whitespace [SP] ?n = ?n"
    using normalize_chars [of _ s] normalize_no_adjacent [of s]
    by (intro replace_runs_fix) blast+
  have 3: "replace_runs is_newline [SP] ?n = ?n"
    using normalize_no_NL [of s] by (intro replace_runs_id) (auto simp: is_newline_def)
  have 4: "trim ?n = ?n"
    using normalize_ends [of s] by (rule trim_id)
  show ?thesis
    by (subst normalize_def) (simp only: 1 2 3 4)
qed



section \<open>The Sentence Segmenter\<close>

lemma delimiters_iff: "d \<in> set delimiters \<longleftrightarrow> (\<exists>t. is_terminator t \<and> d = [t, SP])"
  by (auto simp: delimiters_def js_def is_terminator_def SP_def)

lemma delim_free_Cons: "delim_free (c # cs) \<Longrightarrow> delim_free cs"
  by (cases cs) auto

lemma delim_free_suffix: "delim_free (xs @ ys) \<Longrightarrow> delim_free ys"
  by (induction xs) (auto dest: delim_free_Cons)

lemma delim_free_prefix: "delim_free (xs @ ys) \<Longrightarrow> delim_free xs"
proof (induction xs rule: induct_list012)
  case 1
  then show ?case by simp
next
  case (2 x)
  then show ?case by simp
next
  case (3 x y zs)
  then show ?case by auto
qed

lemma delim_free_snoc:
  "delim_free (xs @ [c, d]) \<longleftrightarrow> delim_free (xs @ [c]) \<and> \<not> (is_terminator c \<and> d = SP)"
proof (induction xs rule: induct_list012)
  case 1
  then show ?case by simp
next
  case (2 x)
  then show ?case by simp
next
  case (3 x y zs)
  then show ?case by auto
qed

lemma delim_free_sublist:
  "delim_free s \<longleftrightarrow> (\<forall>d\<in>set delimiters. \<not> sublist d s)"
proof (induction s rule: induct_list012)
  case 1
  then show ?case by (auto simp: delimiters_iff)
next
  case (2 x)
  then show ?case by (auto simp: delimiters_iff sublist_Cons_right)
next
  case (3 x y zs)
  have "(\<forall>d\<in>set delimiters. \<not> sublist d (x # y # zs)) \<longleftrightarrow>
        (\<forall>d\<in>set delimiters. \<not> prefix d (x # y # zs)) \<and>
        (\<forall>d\<in>set delimiters. \<not> sublist d (y # zs))"
    by (subst sublist_Cons_right) blast
  moreover have "(\<forall>d\<in>set delimiters. \<not> prefix d (x # y # zs)) \<longleftrightarrow>
        \<not> (is_terminator x \<and> y = SP)"
    by (auto simp: Ball_def delimiters_iff)
  ultimately show ?case using 3(2) by simp
qed

lemma split_from_delim_free:
  "delim_free (piece @ take 1 cs) \<Longrightarrow> \<forall>p\<in>set (split_from piece cs). delim_free p"
proof (induction cs arbitrary: piece rule: induct_list012)
  case 1
  then show ?case by simp
next
  case (2 x)
  then show ?case by simp
next
  case (3 c d cs)
  from 3(3) have pc: "delim_free (piece @ [c])" by simp
  show ?case
  proof (cases "is_terminator c \<and> d = SP")
    case True
    have "delim_free ([] @ take 1 cs)" by (cases cs) auto
    then have "\<forall>p\<in>set (split_from [] cs). delim_free p" by (rule 3(1))
    moreover from pc have "delim_free piece" by (rule delim_free_prefix)
    ultimately show ?thesis using True by simp
  next
    case False
    then have eq: "split_from piece (c # d # cs) = split_from (piece @ [c]) (d # cs)" by auto
    from pc False have "delim_free ((piece @ [c]) @ take 1 (d # cs))"
      by (simp add: delim_free_snoc)
    then have "\<forall>p\<in>set (split_from (piece @ [c]) (d # cs)). delim_free p" by (rule 3(2))
    then show ?thesis unfolding eq .
  qed
qed

lemma split_from_whole: "delim_free cs \<Longrightarrow> split_from piece cs = [piece @ cs]"
proof (induction cs arbitrary: piece rule: induct_list012)
  case 1
  then show ?case by simp
next
  case (2 x)
  then show ?case by simp
next
  case (3 c d cs)
  from 3(3) have n: "\<not> (is_terminator c \<and> d = SP)" and r: "delim_free (d # cs)" by auto
  from n have "split_from piece (c # d # cs) = split_from (piece @ [c]) (d # cs)" by auto
  also from r have "\<dots> = [(piece @ [c]) @ d # cs]" by (rule 3(2))
  finally show ?case by simp
qed

lemma split_from_weave:
  "\<exists>ds. length ds + 1 = length (split_from piece cs) \<and> set ds \<subseteq> set delimiters \<and>
        weave (split_from piece cs) ds = piece @ cs"
proof (induction cs arbitrary: piece rule: induct_list012)
  case 1
  have "length ([]::jsstring list) + 1 = length (split_from piece []) \<and>
        set ([]::jsstring list) \<subseteq> set delimiters \<and> weave (split_from piece []) [] = piece @ []"
    by simp
  then show ?case by blast
next
  case (2 x)
  have "length ([]::jsstring list) + 1 = length (split_from piece [x]) \<and>
        set ([]::jsstring list) \<subseteq> set delimiters \<and> weave (split_from piece [x]) [] = piece @ [x]"
    by simp
  then show ?case by blast
next
  case (3 c d cs)
  show ?case
  proof (cases "is_terminator c \<and> d = SP")
    case True
    from 3(1) [of "[]"] obtain ds where ds: "length ds + 1 = length (split_from [] cs)"
      "set ds \<subseteq> set delimiters" "weave (split_from [] cs) ds = cs" by auto
    from True have "[c, d] \<in> set delimiters" by (auto simp: delimiters_iff)
    with ds True have "length ([c, d] # ds) + 1 = length (split_from piece (c # d # cs)) \<and>
        set ([c, d] # ds) \<subseteq> set delimiters \<and>
        weave (split_from piece (c # d # cs)) ([c, d] # ds) = piece @ c # d # cs"
      by simp
    then show ?thesis by blast
  next
    case False
    then have eq: "split_from piece (c # d # cs) = split_from (piece @ [c]) (d # cs)" by auto
    show ?thesis using 3(2) [of "piece @ [c]"] unfolding eq by simp
  qed
qed

lemma segmenter_split_from: "segmenter s = split_from [] s"
  by (simp add: segmenter_def)

text \<open>
  C6, as the code has it. The pieces of the Segmenter, with a separator \<open>". "\<close>,
  \<open>"? "\<close> or \<open>"! "\<close> put back between each two neighbours, are the input, so they are
  its substrings in the original order; no piece contains a separator; and an input in
  which no separator occurs, the empty string included, yields the one-element sequence
  holding the whole input. For the empty input that is the sequence holding the empty
  string, not the empty sequence.
\<close>

theorem segmenter_pieces:
  "(\<exists>ds. length ds + 1 = length (segmenter s) \<and> set ds \<subseteq> set delimiters \<and>
         weave (segmenter s) ds = s) \<and>
   (\<forall>p\<in>set (segmenter s). \<forall>d\<in>set delimiters. \<not> sublist d p) \<and>
   ((\<forall>d\<in>set delimiters. \<not> sublist d s) \<longrightarrow> segmenter s = [s]) \<and>
   segmenter [] = [[]]"
proof -
  have "delim_free ([] @ take 1 s)" by (cases s) auto
  then have "\<forall>p\<in>set (segmenter s). delim_free p"
    unfolding segmenter_split_from by (rule split_from_delim_free)
  then have "\<forall>p\<in>set (segmenter s). \<forall>d\<in>set delimiters. \<not> sublist d p"
    by (simp add: delim_free_sublist)
  moreover have "(\<forall>d\<in>set delimiters. \<not> sublist d s) \<longrightarrow> segmenter s = [s]"
    using split_from_whole [of s "[]"] by (simp add: delim_free_sublist segmenter_split_from)
  moreover have "\<exists>ds. length ds + 1 = length (segmenter s) \<and> set ds \<subseteq> set delimiters \<and>
         weave (segmenter s) ds = s"
    using split_from_weave [of "[]" s] by (simp add: segmenter_split_from)
  moreover have "segmenter [] = [[]]" by (simp add: segmenter_def)
  ultimately show ?thesis by blast
qed

theorem segmenter_empty_counterexample: "segmenter [] \<noteq> []"
  by (simp add: segmenter_def)

theorem segmenter_pieces_witness:
  "segmenter (js ''Hi. Yo? No! ok.'') = [js ''Hi'', js ''Yo'', js ''No'', js ''ok.''] \<and>
   \<not> sublist (js ''. '') (js ''ok.'') \<and>
   segmenter (js ''ok.'') = [js ''ok.'']"
proof -
  have e: "segmenter (js ''Hi. Yo? No! ok.'') = [js ''Hi'', js ''Yo'', js ''No'', js ''ok.'']"
    by (simp add: segmenter_def eval_chars)
  have d: "js ''. '' \<in> set delimiters"
    by (simp add: delimiters_def)
  have n: "\<forall>d\<in>set delimiters. \<not> sublist d (js ''ok.'')"
    by (simp add: delimiters_def js_def sublist_Cons_right)
  have "\<forall>p\<in>set (segmenter (js ''Hi. Yo? No! ok.'')). \<forall>d\<in>set delimiters. \<not> sublist d p"
    using segmenter_pieces [of "js ''Hi. Yo? No! ok.''"] by blast
  then have "\<not> sublist (js ''. '') (js ''ok.'')"
    using d unfolding e by simp
  moreover have "segmenter (js ''ok.'') = [js ''ok.'']"
    using segmenter_pieces [of "js ''ok.''"] n by blast
  ultimately show ?thesis using e by blast
qed

section \<open>The Candidate Filter\<close>

lemma count_list_filter:
  "count_list (filter P xs) x = (if P x then count_list xs x else 0)"
  by (induction xs) auto

text \<open>
  C3. The Candidate Filter keeps exactly the segments of more than 30 code units: its
  result is a subsequence of the input (the order is kept), every segment longer than 30
  occurs in it as often as in the input (duplicates are kept) and no other segment occurs
  at all; a segment of length 30 is dropped and one of length 31 is kept, wherever it
  stands.
\<close>

theorem candidate_filter_exact:
  "subseq (candidate_filter segs) segs \<and>
   (\<forall>s. count_list (candidate_filter segs) s = (if 30 < length s then count_list segs s else 0)) \<and>
   set (candidate_filter segs) = {s \<in> set segs. 30 < length s} \<and>
   (length a = 30 \<longrightarrow>
      candidate_filter (xs @ [a] @ ys) = candidate_filter xs @ candidate_filter ys) \<and>
   (length b = 31 \<longrightarrow>
      candidate_filter (xs @ [b] @ ys) = candidate_filter xs @ [b] @ candidate_filter ys)"
  by (auto simp: candidate_filter_def count_list_filter)

theorem candidate_filter_exact_witness:
  "length (replicate 30 SP) = 30 \<and> length (replicate 31 SP) = 31 \<and>
   candidate_filter ([replicate 31 SP] @ [replicate 30 SP] @ [replicate 31 SP]) =
     [replicate 31 SP, replicate 31 SP] \<and>
   count_list (candidate_filter [replicate 31 SP, replicate 30 SP, replicate 31 SP])
     (replicate 31 SP) = 2"
proof -
  have 1: "candidate_filter ([replicate 31 SP] @ [replicate 30 SP] @ [replicate 31 SP]) =
        candidate_filter [replicate 31 SP] @ candidate_filter [replicate 31 SP]"
    using candidate_filter_exact [of _ "replicate 30 SP" "[replicate 31 SP]" "[replicate 31 SP]"]
    by simp
  have 2: "candidate_filter [replicate 31 SP] = [replicate 31 SP]"
    using candidate_filter_exact [of "[]" _ "[]" "[]" "replicate 31 SP"]
    by (simp add: candidate_filter_def)
  have 3: "count_list (candidate_filter [replicate 31 SP, replicate 30 SP, replicate 31 SP])
     (replicate 31 SP) = count_list [replicate 31 SP, replicate 30 SP, replicate 31 SP]
     (replicate 31 SP)"
    using candidate_filter_exact [of "[replicate 31 SP, replicate 30 SP, replicate 31 SP]"]
    by simp
  have 4: "replicate 30 SP \<noteq> replicate 31 SP"
  proof
    assume "replicate 30 SP = replicate 31 SP"
    then have "length (replicate 30 SP) = length (replicate 31 SP)" by (rule arg_cong)
    then show False by simp
  qed
  show ?thesis using 1 2 3 4 by simp
qed

section \<open>The Prompt Synthesizer\<close>

lemma length_map_with_index: "length (map_with_index f k xs) = length xs"
  by (induction xs arbitrary: k) auto

lemma nth_map_with_index:
  "i < length xs \<Longrightarrow> map_with_index f k xs ! i = f (xs ! i) (k + i)"
proof (induction xs arbitrary: k i)
  case Nil
  then show ?case by simp
next
  case (Cons x xs)
  then show ?case by (cases i) auto
qed

lemma number_to_string_digit: "n < 10 \<Longrightarrow> number_to_string n = [of_nat (48 + n)]"
  by (simp add: number_to_string.simps)

text \<open>
  C2. The Prompt Synthesizer returns one prompt for each of the first five candidates, in
  their order: there are \<open>min 5 n\<close> prompts for \<open>n\<close> candidates, and the prompt at index
  \<open>i\<close> is \<open>Q\<close>, the decimal \<open>i + 1\<close>, \<open>: What does this mean? \<close>, the arrow U+2192, a
  space, a double quote, the trimmed candidate at index \<open>i\<close>, \<open>?\<close> and a double quote. The
  trimmed candidate is the candidate without the white space before and after it. The
  ordinals of the five prompts are \<open>1\<close> to \<open>5\<close>; twenty candidates give five prompts and
  no candidate gives none.
\<close>

theorem synthesizer_prompts:
  "length (synthesizer cs) = min 5 (length cs) \<and>
   (\<forall>i<min 5 (length cs).
      synthesizer cs ! i =
        js ''Q'' @ number_to_string (i + 1) @ js '': What does this mean? '' @ [0x2192] @
        js '' '' @ [0x22] @ trim (cs ! i) @ js ''?'' @ [0x22]) \<and>
   map number_to_string [1, 2, 3, 4, 5] = [js ''1'', js ''2'', js ''3'', js ''4'', js ''5''] \<and>
   (\<exists>a b. c = a @ trim c @ b \<and> (\<forall>x\<in>set a. is_whitespace x) \<and> (\<forall>x\<in>set b. is_whitespace x)) \<and>
   (trim c = [] \<or> \<not> is_whitespace (hd (trim c)) \<and> \<not> is_whitespace (last (trim c))) \<and>
   (length cs = 20 \<longrightarrow> length (synthesizer cs) = 5) \<and>
   synthesizer [] = []"
proof -
  have len: "length (synthesizer cs) = min 5 (length cs)"
    by (simp add: synthesizer_def length_map_with_index min.commute)
  have nth: "synthesizer cs ! i =
        js ''Q'' @ number_to_string (i + 1) @ js '': What does this mean? '' @ [0x2192] @
        js '' '' @ [0x22] @ trim (cs ! i) @ js ''?'' @ [0x22]" if "i < min 5 (length cs)" for i
  proof -
    from that have "i < length (take 5 cs)" by simp
    then have "synthesizer cs ! i = prompt (take 5 cs ! i) (0 + i)"
      unfolding synthesizer_def by (rule nth_map_with_index)
    also have "take 5 cs ! i = cs ! i" using that by simp
    finally show ?thesis by (simp add: prompt_def)
  qed
  have ord: "map number_to_string [1, 2, 3, 4, 5] = [js ''1'', js ''2'', js ''3'', js ''4'', js ''5'']"
    by (simp add: number_to_string_digit js_def)
  have ends: "trim c = [] \<or> \<not> is_whitespace (hd (trim c)) \<and> \<not> is_whitespace (last (trim c))"
    using trim_ends [of c] by blast
  have "synthesizer [] = []" by (simp add: synthesizer_def)
  with len nth ord ends trim_split [of c] show ?thesis by simp
qed

theorem synthesizer_prompts_witness:
  "length (synthesizer (replicate 20 (js '' ab  ''))) = 5 \<and>
   synthesizer (replicate 20 (js '' ab  '')) ! 4 =
     js ''Q5: What does this mean? '' @ [0x2192] @ js '' '' @ [0x22] @ js ''ab?'' @ [0x22]"
proof -
  let ?cs = "replicate 20 (js '' ab  '')"
  have l: "length ?cs = 20" by simp
  have i: "(4::nat) < min 5 (length ?cs)" by simp
  have t: "trim (?cs ! 4) = js ''ab''" by (simp add: trim_def eval_chars)
  have n: "number_to_string (4 + 1) = js ''5''" by (simp add: number_to_string_digit js_def)
  have "synthesizer ?cs ! 4 =
        js ''Q'' @ number_to_string (4 + 1) @ js '': What does this mean? '' @ [0x2192] @
        js '' '' @ [0x22] @ trim (?cs ! 4) @ js ''?'' @ [0x22]"
    using synthesizer_prompts [of ?cs] i by blast
  then have "synthesizer ?cs ! 4 =
     js ''Q5: What does this mean? '' @ [0x2192] @ js '' '' @ [0x22] @ js ''ab?'' @ [0x22]"
    unfolding t n by (simp add: js_def)
  moreover have "length (synthesizer ?cs) = 5"
    using synthesizer_prompts [of ?cs] l by blast
  ultimately show ?thesis by blast
qed

section \<open>The whole component\<close>

lemmas eval_pipeline = normalize_def trim_def segmenter_def candidate_filter_def
  synthesizer_def prompt_def prompts_of_normalized_def cleanAndGenerateQuestions_def
  number_to_string_digit eval_chars

lemma mitochondria_value:
  "cleanAndGenerateQuestions
     (js ''The mitochondria is the powerhouse of the cell. It performs cellular respiration constantly.'') =
   [js ''Q1: What does this mean? '' @ [0x2192] @ js '' '' @ [0x22] @
      js ''The mitochondria is the powerhouse of the cell?'' @ [0x22],
    js ''Q2: What does this mean? '' @ [0x2192] @ js '' '' @ [0x22] @
      js ''It performs cellular respiration constantly.?'' @ [0x22]]"
  by (simp add: eval_pipeline)

lemma mitochondria_segments:
  "segmenter (normalize
     (js ''The mitochondria is the powerhouse of the cell. It performs cellular respiration constantly.'')) =
   [js ''The mitochondria is the powerhouse of the cell'',
    js ''It performs cellular respiration constantly.'']"
  by (simp add: eval_pipeline)

text \<open>
  C1, as the code has it. For the text of the end-to-end scenario the Segmenter yields
  two candidates, of 46 and 44 code units; the second one keeps its final full stop,
  which no space follows, so the second prompt ends in \<open>constantly.?\<close> and the list of
  prompts is the one below.
\<close>

theorem mitochondria_prompts:
  "segmenter (normalize
     (js ''The mitochondria is the powerhouse of the cell. It performs cellular respiration constantly.'')) =
   [js ''The mitochondria is the powerhouse of the cell'',
    js ''It performs cellular respiration constantly.''] \<and>
   map length [js ''The mitochondria is the powerhouse of the cell'',
    js ''It performs cellular respiration constantly.''] = [46, 44] \<and>
   cleanAndGenerateQuestions
     (js ''The mitochondria is the powerhouse of the cell. It performs cellular respiration constantly.'') =
   [js ''Q1: What does this mean? '' @ [0x2192] @ js '' '' @ [0x22] @
      js ''The mitochondria is the powerhouse of the cell?'' @ [0x22],
    js ''Q2: What does this mean? '' @ [0x2192] @ js '' '' @ [0x22] @
      js ''It performs cellular respiration constantly.?'' @ [0x22]]"
  using mitochondria_value mitochondria_segments by (simp add: js_def)

theorem mitochondria_prompts_counterexample:
  "cleanAndGenerateQuestions
     (js ''The mitochondria is the powerhouse of the cell. It performs cellular respiration constantly.'') \<noteq>
   [js ''Q1: What does this mean? '' @ [0x2192] @ js '' '' @ [0x22] @
      js ''The mitochondria is the powerhouse of the cell?'' @ [0x22],
    js ''Q2: What does this mean? '' @ [0x2192] @ js '' '' @ [0x22] @
      js ''It performs cellular respiration constantly?'' @ [0x22]]"
  unfolding mitochondria_value by (simp add: js_def)

section \<open>The Page Text Extractor\<close>

lemma join_snoc:
  "join sep (xs @ [y]) = (if xs = [] then y else join sep xs @ sep @ y)"
proof (induction xs rule: induct_list012)
  case 1
  then show ?case by simp
next
  case (2 x)
  then show ?case by simp
next
  case (3 x y zs)
  then show ?case by simp
qed

lemma extract_from_done: "numPages pdf < i \<Longrightarrow> extract_from pdf i acc = Inr acc"
  by (simp add: extract_from.simps)

lemma extract_from_step:
  assumes "i \<le> numPages pdf" and "getPage pdf i = Inr page" and "getTextContent page = Inr content"
  shows "extract_from pdf i acc = extract_from pdf (i + 1) (acc @ page_text content @ [NL])"
  using assms by (subst extract_from.simps) simp

lemma extract_from_pages:
  "\<forall>k. 1 \<le> k \<and> k \<le> numPages pdf \<longrightarrow>
       getPage pdf k = Inr (pg k) \<and> getTextContent (pg k) = Inr (ct k) \<Longrightarrow>
   1 \<le> i \<Longrightarrow> i \<le> Suc (numPages pdf) \<Longrightarrow>
   extract_from pdf i acc =
     Inr (acc @ concat (map (\<lambda>k. page_text (ct k) @ [NL]) [i..<Suc (numPages pdf)]))"
proof (induction pdf i acc rule: extract_from.induct)
  case (1 pdf i acc)
  note ok = "1.prems"(1) and lo = "1.prems"(2) and hi = "1.prems"(3)
  show ?case
  proof (cases "i \<le> numPages pdf")
    case True
    with ok lo have p: "getPage pdf i = Inr (pg i)" and c: "getTextContent (pg i) = Inr (ct i)"
      by auto
    have "extract_from pdf i acc = extract_from pdf (i + 1) (acc @ page_text (ct i) @ [NL])"
      using True p c by (rule extract_from_step)
    also have "\<dots> = Inr ((acc @ page_text (ct i) @ [NL]) @
        concat (map (\<lambda>k. page_text (ct k) @ [NL]) [i + 1..<Suc (numPages pdf)]))"
      using True ok by (intro "1.IH" [OF True p c]) auto
    also have "(acc @ page_text (ct i) @ [NL]) @
        concat (map (\<lambda>k. page_text (ct k) @ [NL]) [i + 1..<Suc (numPages pdf)]) =
        acc @ concat (map (\<lambda>k. page_text (ct k) @ [NL]) [i..<Suc (numPages pdf)])"
    proof -
      have u: "[i..<Suc (numPages pdf)] = i # [i + 1..<Suc (numPages pdf)]"
        using True by (subst upt_rec) simp
      show ?thesis by (simp only: u list.map concat.simps append_assoc)
    qed
    finally show ?thesis .
  next
    case False
    with hi have "i = Suc (numPages pdf)" by simp
    then show ?thesis by (simp add: extract_from_done)
  qed
qed


text \<open>
  C7. When the document decodes and each of its pages yields its text content, the text
  handed to \<open>onUpload\<close> is the concatenation, in page order from page 1, of the page
  texts, each followed by one newline; a page text is the fragments of the page joined by
  one space in the order the decoder yields them (a further fragment goes behind the
  text so far, after one space). For a document of one page the text is that page's text
  followed by the one newline.
\<close>

theorem document_text:
  assumes "ftype f = js ''application/pdf''"
    and "getDocument (bytes f) = Inr pdf"
    and "\<forall>k. 1 \<le> k \<and> k \<le> numPages pdf \<longrightarrow>
           getPage pdf k = Inr (pg k) \<and> getTextContent (pg k) = Inr (ct k)"
  shows "handleFileChange getDocument (f # fs) =
           OnUpload (concat (map (\<lambda>k. join [SP] (map str (items (ct k))) @ [NL])
                                 [1..<Suc (numPages pdf)])) \<and>
         (numPages pdf = 1 \<longrightarrow>
            handleFileChange getDocument (f # fs) =
              OnUpload (join [SP] (map str (items (ct 1))) @ [NL])) \<and>
         join [SP] [] = [] \<and>
         join [SP] (xs @ [y]) = (if xs = [] then y else join [SP] xs @ [SP] @ y)"
proof -
  have "extract_from pdf 1 [] =
      Inr ([] @ concat (map (\<lambda>k. page_text (ct k) @ [NL]) [1..<Suc (numPages pdf)]))"
    using assms(3) by (rule extract_from_pages) simp_all
  then have 1: "handleFileChange getDocument (f # fs) =
           OnUpload (concat (map (\<lambda>k. join [SP] (map str (items (ct k))) @ [NL])
                                 [1..<Suc (numPages pdf)]))"
    using assms(1,2) by (simp add: handleFileChange_def page_text_def js_def SP_def)
  have 2: "numPages pdf = 1 \<longrightarrow>
            handleFileChange getDocument (f # fs) =
              OnUpload (join [SP] (map str (items (ct 1))) @ [NL])"
    unfolding 1 by simp
  show ?thesis using 1 2 join_snoc [of "[SP]" xs y] by simp
qed

theorem document_text_witness:
  "handleFileChange
     (\<lambda>b. Inr \<lparr>numPages = 2,
                getPage = (\<lambda>i. if i = 1
                   then Inr \<lparr>getTextContent =
                          Inr \<lparr>items = [\<lparr>str = js ''Hello''\<rparr>, \<lparr>str = js ''world''\<rparr>]\<rparr>\<rparr>
                   else Inr \<lparr>getTextContent = Inr \<lparr>items = [\<lparr>str = js ''bye''\<rparr>]\<rparr>\<rparr>)\<rparr>)
     [\<lparr>ftype = js ''application/pdf'', bytes = [0x25, 0x50, 0x44, 0x46]\<rparr>] =
   OnUpload (js ''Hello world'' @ [NL] @ js ''bye'' @ [NL]) \<and>
   handleFileChange
     (\<lambda>b. Inr \<lparr>numPages = 1,
                getPage = (\<lambda>i. Inr \<lparr>getTextContent =
                          Inr \<lparr>items = [\<lparr>str = js ''Hello''\<rparr>, \<lparr>str = js ''world''\<rparr>]\<rparr>\<rparr>)\<rparr>)
     [\<lparr>ftype = js ''application/pdf'', bytes = [0x25, 0x50, 0x44, 0x46]\<rparr>] =
   OnUpload (js ''Hello world'' @ [NL])"
proof -
  let ?c1 = "\<lparr>items = [\<lparr>str = js ''Hello''\<rparr>, \<lparr>str = js ''world''\<rparr>]\<rparr>"
  let ?c2 = "\<lparr>items = [\<lparr>str = js ''bye''\<rparr>]\<rparr>"
  let ?p1 = "\<lparr>getTextContent = Inr ?c1\<rparr>"
  let ?p2 = "\<lparr>getTextContent = Inr ?c2\<rparr>"
  let ?f = "\<lparr>ftype = js ''application/pdf'', bytes = [0x25, 0x50, 0x44, 0x46]\<rparr>"
  let ?two = "\<lparr>numPages = 2, getPage = (\<lambda>i. if i = 1 then Inr ?p1 else Inr ?p2)\<rparr>"
  let ?one = "\<lparr>numPages = 1, getPage = (\<lambda>i. Inr ?p1)\<rparr>"
  have "handleFileChange (\<lambda>b. Inr ?two) (?f # []) =
      OnUpload (concat (map (\<lambda>k::nat. join [SP] (map str (items (if k = 1 then ?c1 else ?c2))) @ [NL])
                            [1, 2]))"
    using document_text [of ?f "\<lambda>b. Inr ?two" ?two
        "\<lambda>i. if i = 1 then ?p1 else ?p2" "\<lambda>i. if i = 1 then ?c1 else ?c2" "[]" "[]" "[]"]
    by (simp add: upt_rec)
  then have 1: "handleFileChange (\<lambda>b. Inr ?two) [?f] =
      OnUpload (js ''Hello world'' @ [NL] @ js ''bye'' @ [NL])"
    by (simp add: js_def SP_def)
  have "handleFileChange (\<lambda>b. Inr ?one) (?f # []) =
      OnUpload (join [SP] (map str (items ?c1)) @ [NL])"
    using document_text [of ?f "\<lambda>b. Inr ?one" ?one "\<lambda>i. ?p1" "\<lambda>i. ?c1" "[]" "[]" "[]"]
    by simp
  then have 2: "handleFileChange (\<lambda>b. Inr ?one) [?f] = OnUpload (js ''Hello world'' @ [NL])"
    by (simp add: js_def SP_def)
  show ?thesis using 1 2 by blast
qed

section \<open>Failures and the transport shell\<close>






end
